theory Spec2Isabelle
  imports Complex_Main "HOL-Library.Sublist"
begin

section \<open>Go strings\<close>

text \<open>
  A Go \<^verbatim>\<open>string\<close> is a sequence of bytes, and \<^verbatim>\<open>len\<close>, indexing and slicing count
  bytes.  It is modelled as a \<^typ>\<open>string\<close>, whose characters are bytes.  The functions of
  package \<^verbatim>\<open>strings\<close> that the scan manager calls are modelled below.

  \<^verbatim>\<open>strings.TrimSpace\<close> removes leading and trailing Unicode white space
  (\<^verbatim>\<open>unicode.IsSpace\<close>).  On a byte string that is: as long as the string starts (ends) with
  the UTF-8 encoding of a white-space code point, that encoding is removed.  The
  code points are U+0009 to U+000D, U+0020, U+0085, U+00A0, U+1680, U+2000 to U+200A,
  U+2028, U+2029, U+202F, U+205F and U+3000.
\<close>

definition space_encodings :: "string list" where
  "space_encodings =
    [[CHR 0x09], [CHR 0x0A], [CHR 0x0B], [CHR 0x0C], [CHR 0x0D], [CHR 0x20],
     [CHR 0xC2, CHR 0x85], [CHR 0xC2, CHR 0xA0],
     [CHR 0xE1, CHR 0x9A, CHR 0x80],
     [CHR 0xE2, CHR 0x80, CHR 0x80], [CHR 0xE2, CHR 0x80, CHR 0x81],
     [CHR 0xE2, CHR 0x80, CHR 0x82], [CHR 0xE2, CHR 0x80, CHR 0x83],
     [CHR 0xE2, CHR 0x80, CHR 0x84], [CHR 0xE2, CHR 0x80, CHR 0x85],
     [CHR 0xE2, CHR 0x80, CHR 0x86], [CHR 0xE2, CHR 0x80, CHR 0x87],
     [CHR 0xE2, CHR 0x80, CHR 0x88], [CHR 0xE2, CHR 0x80, CHR 0x89],
     [CHR 0xE2, CHR 0x80, CHR 0x8A],
     [CHR 0xE2, CHR 0x80, CHR 0xA8], [CHR 0xE2, CHR 0x80, CHR 0xA9],
     [CHR 0xE2, CHR 0x80, CHR 0xAF],
     [CHR 0xE2, CHR 0x81, CHR 0x9F],
     [CHR 0xE3, CHR 0x80, CHR 0x80]]"

definition leading_space :: "string \<Rightarrow> string option" where
  "leading_space s = find (\<lambda>p. prefix p s) space_encodings"

definition trailing_space :: "string \<Rightarrow> string option" where
  "trailing_space s = find (\<lambda>p. suffix p s) space_encodings"

function TrimLeft :: "string \<Rightarrow> string" where
  "TrimLeft s =
     (case leading_space s of
        None \<Rightarrow> s
      | Some p \<Rightarrow> TrimLeft (drop (length p) s))"
  by pat_completeness auto
termination
proof (relation "measure length")
  fix s p
  assume "leading_space s = Some p"
  then have "p \<in> set space_encodings" and "prefix p s"
    by (auto simp: leading_space_def find_Some_iff)
  then have "p \<noteq> []" and "length p \<le> length s"
    by (auto simp: space_encodings_def prefix_length_le)
  then show "(drop (length p) s, s) \<in> measure length"
    by (cases p) auto
qed simp

function TrimRight :: "string \<Rightarrow> string" where
  "TrimRight s =
     (case trailing_space s of
        None \<Rightarrow> s
      | Some p \<Rightarrow> TrimRight (take (length s - length p) s))"
  by pat_completeness auto
termination
proof (relation "measure length")
  fix s p
  assume "trailing_space s = Some p"
  then have "p \<in> set space_encodings" and "suffix p s"
    by (auto simp: trailing_space_def find_Some_iff)
  then have "p \<noteq> []" and "length p \<le> length s"
    by (auto simp: space_encodings_def suffix_length_le)
  then show "(take (length s - length p) s, s) \<in> measure length"
    by (cases p) auto
qed simp

declare TrimLeft.simps [simp del] TrimRight.simps [simp del]

definition TrimSpace :: "string \<Rightarrow> string" where
  "TrimSpace s = TrimRight (TrimLeft s)"

definition HasPrefix :: "string \<Rightarrow> string \<Rightarrow> bool" where
  "HasPrefix s p = prefix p s"

definition HasSuffix :: "string \<Rightarrow> string \<Rightarrow> bool" where
  "HasSuffix s p = suffix p s"

definition TrimSuffix :: "string \<Rightarrow> string \<Rightarrow> string" where
  "TrimSuffix s p = (if HasSuffix s p then take (length s - length p) s else s)"

text \<open>
  \<^verbatim>\<open>strings.IndexByte(s, c)\<close> is the index of the first byte \<open>c\<close> of \<open>s\<close>, or \<open>-1\<close> when
  there is none.  \<^verbatim>\<open>strings.Index(s, "\n")\<close>, the only use of \<^verbatim>\<open>strings.Index\<close> in the
  extractor, searches for a one-byte string and is the same function.
\<close>

fun IndexByte :: "string \<Rightarrow> char \<Rightarrow> int" where
  "IndexByte [] c = - 1"
| "IndexByte (x # xs) c =
     (if x = c then 0
      else (let r = IndexByte xs c in if r < 0 then - 1 else r + 1))"

text \<open>The slice \<^verbatim>\<open>s[lo:hi]\<close>, for \<open>0 \<le> lo \<le> hi \<le> len(s)\<close>.\<close>

definition slice :: "string \<Rightarrow> int \<Rightarrow> int \<Rightarrow> string" where
  "slice s lo hi = take (nat hi - nat lo) (drop (nat lo) s)"

section \<open>The JSON extractor\<close>

text \<open>
  \<^verbatim>\<open>extractJSONFromText\<close> of the multi-call path.  Its scanning loop is
  \<^verbatim>\<open>
  var depth int
  last := -1
  for i := start; i < len(s); i++ {
      switch s[i] {
      case '{', '[':
          depth++
      case '}', ']':
          depth--
          if depth == 0 {
              last = i
              break
          }
      }
  }
  \<close>
  In Go a \<^verbatim>\<open>break\<close> terminates the innermost \<^verbatim>\<open>for\<close>, \<^verbatim>\<open>switch\<close> or \<^verbatim>\<open>select\<close>
  statement.  The \<^verbatim>\<open>break\<close> above is inside the \<^verbatim>\<open>switch\<close>, so it leaves the
  \<^verbatim>\<open>switch\<close> only: the \<^verbatim>\<open>for\<close> loop always runs to the end of the string, and \<open>last\<close> is
  overwritten each time a closing bracket brings the depth to zero.  The depth is a
  Go \<^verbatim>\<open>int\<close>; its absolute value never exceeds the length of the string, so it
  cannot wrap and is modelled as an \<^typ>\<open>int\<close>.
\<close>

function scan_brackets :: "string \<Rightarrow> nat \<Rightarrow> int \<Rightarrow> int \<Rightarrow> int" where
  "scan_brackets s i depth lastp =
     (if i < length s then
        (if s ! i = CHR ''{'' \<or> s ! i = CHR ''['' then
           scan_brackets s (i + 1) (depth + 1) lastp
         else if s ! i = CHR ''}'' \<or> s ! i = CHR '']'' then
           scan_brackets s (i + 1) (depth - 1) (if depth - 1 = 0 then int i else lastp)
         else scan_brackets s (i + 1) depth lastp)
      else lastp)"
  by pat_completeness auto
termination
  by (relation "measure (\<lambda>(s, i, depth, lastp). length s - i)") auto

declare scan_brackets.simps [simp del]

definition fence :: string where
  "fence = ''```''"

definition extractJSONFromText :: "string \<Rightarrow> string" where
  "extractJSONFromText s0 =
     (let s1 = TrimSpace s0;
          s2 = (if HasPrefix s1 fence then
                  (let idx = IndexByte s1 (CHR 0x0A)
                   in if idx \<ge> 0 then drop (nat (idx + 1)) s1 else [])
                else s1);
          s3 = (if HasSuffix s2 fence then TrimSuffix s2 fence else s2);
          s = TrimSpace s3;
          start0 = IndexByte s (CHR ''{'');
          start = (if start0 < 0 then IndexByte s (CHR ''['') else start0)
      in if start < 0 then s
         else (let lastp = scan_brackets s (nat start) 0 (- 1)
               in if lastp \<ge> start then TrimSpace (slice s start (lastp + 1)) else s))"

text \<open>
  The single-call path has its own two helpers, \<^verbatim>\<open>stripCodeFences\<close> and
  \<^verbatim>\<open>trimToBalancedJSON\<close>; the latter looks at braces only.
\<close>

definition stripCodeFences :: "string \<Rightarrow> string" where
  "stripCodeFences s0 =
     (let s1 = TrimSpace s0;
          s2 = (if HasPrefix s1 fence then
                  (let idx = IndexByte s1 (CHR 0x0A)
                   in if idx \<ge> 0 then drop (nat (idx + 1)) s1 else [])
                else s1);
          s3 = (if HasSuffix s2 fence then TrimSuffix s2 fence else s2)
      in TrimSpace s3)"

function scan_braces :: "string \<Rightarrow> nat \<Rightarrow> int \<Rightarrow> int \<Rightarrow> int" where
  "scan_braces s i depth lastp =
     (if i < length s then
        (if s ! i = CHR ''{'' then scan_braces s (i + 1) (depth + 1) lastp
         else if s ! i = CHR ''}'' then
           scan_braces s (i + 1) (depth - 1) (if depth - 1 = 0 then int i else lastp)
         else scan_braces s (i + 1) depth lastp)
      else lastp)"
  by pat_completeness auto
termination
  by (relation "measure (\<lambda>(s, i, depth, lastp). length s - i)") auto

declare scan_braces.simps [simp del]

definition trimToBalancedJSON :: "string \<Rightarrow> string" where
  "trimToBalancedJSON s =
     (let start = IndexByte s (CHR ''{'')
      in if start < 0 then s
         else (let lastp = scan_braces s (nat start) 0 (- 1)
               in if lastp \<ge> start then slice s start (lastp + 1) else s))"

section \<open>Auxiliary functions for the proofs\<close>

text \<open>
  \<open>last_zero cs d\<close> is what the scanning loop computes, told on the list of the bytes that
  are still to be read: the offset in \<open>cs\<close> of the last closing bracket that brings the
  depth, \<open>d\<close> before \<open>cs\<close>, to zero.  \<open>cut_balanced\<close> is the second half of
  \<^verbatim>\<open>extractJSONFromText\<close>, the part after the fences are stripped.
\<close>

fun last_zero :: "string \<Rightarrow> int \<Rightarrow> nat option" where
  "last_zero [] d = None"
| "last_zero (c # cs) d =
     (let d' = (if c = CHR ''{'' \<or> c = CHR ''['' then d + 1
                else if c = CHR ''}'' \<or> c = CHR '']'' then d - 1 else d)
      in case last_zero cs d' of
           Some k \<Rightarrow> Some (Suc k)
         | None \<Rightarrow> (if (c = CHR ''}'' \<or> c = CHR '']'') \<and> d' = 0 then Some 0 else None))"

definition cut_balanced :: "string \<Rightarrow> string" where
  "cut_balanced s =
     (let start0 = IndexByte s (CHR ''{'');
          start = (if start0 < 0 then IndexByte s (CHR ''['') else start0)
      in if start < 0 then s
         else (let lastp = scan_brackets s (nat start) 0 (- 1)
               in if lastp \<ge> start then TrimSpace (slice s start (lastp + 1)) else s))"

section \<open>Properties of the string functions\<close>

lemma TrimLeft_None: "leading_space s = None \<Longrightarrow> TrimLeft s = s"
  by (simp add: TrimLeft.simps)

lemma TrimRight_None: "trailing_space s = None \<Longrightarrow> TrimRight s = s"
  by (simp add: TrimRight.simps)

lemma TrimSpace_None:
  "leading_space s = None \<Longrightarrow> trailing_space s = None \<Longrightarrow> TrimSpace s = s"
  by (simp add: TrimSpace_def TrimLeft_None TrimRight_None)

lemmas last_zero_simps = last_zero.simps

declare last_zero.simps [simp del]

lemma leading_space_None_iff:
  "leading_space s = None \<longleftrightarrow> (\<forall>p \<in> set space_encodings. \<not> prefix p s)"
  by (auto simp: leading_space_def find_None_iff)

lemma trailing_space_None_iff:
  "trailing_space s = None \<longleftrightarrow> (\<forall>p \<in> set space_encodings. \<not> suffix p s)"
  by (auto simp: trailing_space_def find_None_iff)

lemma leading_space_TrimLeft: "leading_space (TrimLeft s) = None"
  by (induction s rule: TrimLeft.induct) (subst TrimLeft.simps, simp split: option.splits)

lemma trailing_space_TrimRight: "trailing_space (TrimRight s) = None"
  by (induction s rule: TrimRight.induct) (subst TrimRight.simps, simp split: option.splits)

lemma prefix_TrimRight: "prefix (TrimRight s) s"
proof (induction s rule: TrimRight.induct)
  case (1 s)
  show ?case
  proof (cases "trailing_space s")
    case None
    then show ?thesis by (simp add: TrimRight.simps)
  next
    case (Some p)
    then have "prefix (TrimRight (take (length s - length p) s)) (take (length s - length p) s)"
      using 1 by simp
    moreover have "prefix (take (length s - length p) s) s"
      by (rule take_is_prefix)
    ultimately have "prefix (TrimRight (take (length s - length p) s)) s"
      by (rule prefix_order.trans)
    then show ?thesis using Some by (subst TrimRight.simps) simp
  qed
qed

lemma leading_space_TrimRight:
  assumes "leading_space s = None"
  shows "leading_space (TrimRight s) = None"
proof -
  have "\<not> prefix p (TrimRight s)" if "p \<in> set space_encodings" for p
  proof
    assume "prefix p (TrimRight s)"
    then have "prefix p s"
      using prefix_TrimRight by (rule prefix_order.trans)
    then show False
      using assms that by (simp add: leading_space_None_iff)
  qed
  then show ?thesis by (simp add: leading_space_None_iff)
qed

lemma TrimSpace_spaces:
  "leading_space (TrimSpace s) = None" "trailing_space (TrimSpace s) = None"
  by (simp_all add: TrimSpace_def leading_space_TrimRight leading_space_TrimLeft
      trailing_space_TrimRight)

lemma TrimSpace_idem: "TrimSpace (TrimSpace s) = TrimSpace s"
  by (simp add: TrimSpace_None TrimSpace_spaces)

lemma leading_space_bracket:
  "c \<in> {CHR ''{'', CHR ''['', CHR ''}'', CHR '']''} \<Longrightarrow> leading_space (c # cs) = None"
  by (auto simp: leading_space_None_iff space_encodings_def)

lemma trailing_space_bracket:
  "c \<in> {CHR ''{'', CHR ''['', CHR ''}'', CHR '']''} \<Longrightarrow> trailing_space (cs @ [c]) = None"
  by (auto simp: trailing_space_None_iff space_encodings_def suffix_to_prefix)


lemma IndexByte_neg_iff: "IndexByte s c < 0 \<longleftrightarrow> c \<notin> set s"
  by (induction s) (auto simp: Let_def)

lemma IndexByte_neg: "c \<notin> set s \<Longrightarrow> IndexByte s c = - 1"
  by (induction s) (auto simp: Let_def)

lemma IndexByte_ge: "IndexByte s c \<ge> - 1"
  by (induction s) (auto simp: Let_def)

lemma IndexByte_found:
  "c \<in> set s \<Longrightarrow>
     \<exists>pre post. s = pre @ c # post \<and> c \<notin> set pre \<and> IndexByte s c = int (length pre)"
proof (induction s)
  case Nil
  then show ?case by simp
next
  case (Cons x xs)
  show ?case
  proof (cases "x = c")
    case True
    then have "x # xs = [] @ c # xs \<and> c \<notin> set [] \<and> IndexByte (x # xs) c = int (length ([]::string))"
      by simp
    then show ?thesis by blast
  next
    case False
    with Cons obtain pre post where
      p: "xs = pre @ c # post" "c \<notin> set pre" "IndexByte xs c = int (length pre)"
      by auto
    have "x # xs = (x # pre) @ c # post \<and> c \<notin> set (x # pre)
        \<and> IndexByte (x # xs) c = int (length (x # pre))"
      using p False by (simp add: Let_def)
    then show ?thesis by blast
  qed
qed

lemma IndexByte_hd: "IndexByte (c # cs) c = 0"
  by simp

lemma scan_brackets_last_zero:
  "scan_brackets s i d l =
     (case last_zero (drop i s) d of None \<Rightarrow> l | Some k \<Rightarrow> int (i + k))"
proof (induction s i d l rule: scan_brackets.induct)
  case (1 s i depth lastp)
  show ?case
  proof (cases "i < length s")
    case False
    then show ?thesis by (simp add: scan_brackets.simps last_zero_simps)
  next
    case True
    then have dr: "drop i s = s ! i # drop (Suc i) s"
      by (simp add: Cons_nth_drop_Suc)
    show ?thesis
      using True 1
      by (subst scan_brackets.simps) (auto simp: dr Let_def last_zero_simps split: option.splits)
  qed
qed

lemma last_zero_take:
  "last_zero cs d = Some k \<Longrightarrow>
     k < length cs \<and> (cs ! k = CHR ''}'' \<or> cs ! k = CHR '']'') \<and>
     last_zero (take (Suc k) cs) d = Some k"
proof (induction cs arbitrary: d k)
  case Nil
  then show ?case by (simp add: last_zero_simps)
next
  case (Cons c cs)
  let ?d = "if c = CHR ''{'' \<or> c = CHR ''['' then d + 1
            else if c = CHR ''}'' \<or> c = CHR '']'' then d - 1 else d"
  show ?case
  proof (cases "last_zero cs ?d")
    case None
    with Cons.prems have "k = 0" and "c = CHR ''}'' \<or> c = CHR '']''" and "?d = 0"
      by (auto simp: Let_def last_zero_simps split: if_splits)
    then show ?thesis by (auto simp: Let_def last_zero_simps)
  next
    case (Some j)
    with Cons.prems have k: "k = Suc j"
      by (auto simp: Let_def last_zero_simps)
    from Cons.IH [OF Some] have
      "j < length cs" "cs ! j = CHR ''}'' \<or> cs ! j = CHR '']''"
      "last_zero (take (Suc j) cs) ?d = Some j"
      by auto
    then show ?thesis
      using k by (auto simp: Let_def last_zero_simps)
  qed
qed


lemma extractJSONFromText_split:
  "extractJSONFromText x = cut_balanced (stripCodeFences x)"
  by (simp add: extractJSONFromText_def cut_balanced_def stripCodeFences_def Let_def)

lemma TrimSpace_stripCodeFences: "TrimSpace (stripCodeFences x) = stripCodeFences x"
  by (simp add: stripCodeFences_def Let_def TrimSpace_idem)

lemma stripCodeFences_fixed:
  "TrimSpace s = s \<Longrightarrow> \<not> HasPrefix s fence \<Longrightarrow> \<not> HasSuffix s fence \<Longrightarrow>
     stripCodeFences s = s"
  by (simp add: stripCodeFences_def Let_def)

text \<open>The text cut out by a successful scan: it starts with the opening bracket found
  and ends with the last closing bracket that brings the depth to zero.\<close>

lemma cut_fixed:
  assumes b: "b = CHR ''{'' \<or> b = CHR ''[''"
    and lz: "last_zero (b # post) 0 = Some k"
    and nb: "b \<noteq> CHR ''{'' \<Longrightarrow> CHR ''{'' \<notin> set post"
  defines "out \<equiv> take (Suc k) (b # post)"
  shows "TrimSpace out = out" and "stripCodeFences out = out" and "cut_balanced out = out"
proof -
  from last_zero_take [OF lz] have
    k: "k < length (b # post)" and
    cl: "(b # post) ! k = CHR ''}'' \<or> (b # post) ! k = CHR '']''" and
    lz': "last_zero out 0 = Some k"
    by (auto simp: out_def)
  have len: "length out = Suc k"
    using k by (simp add: out_def)
  have hd: "out = b # take k post"
    by (simp add: out_def)
  have "out \<noteq> []" using hd by simp
  then have sn: "out = butlast out @ [last out]" by simp
  have "last out = out ! k"
    using len \<open>out \<noteq> []\<close> by (simp add: last_conv_nth)
  also have "\<dots> = (b # post) ! k"
    unfolding out_def by (rule nth_take) simp
  finally have lc: "last out = CHR ''}'' \<or> last out = CHR '']''"
    using cl by simp
  have l: "leading_space out = None"
    using b by (subst hd) (rule leading_space_bracket, auto)
  have r: "trailing_space out = None"
    using lc by (subst sn) (rule trailing_space_bracket, auto)
  show t: "TrimSpace out = out"
    using l r by (rule TrimSpace_None)
  have np: "\<not> HasPrefix out fence"
    using b by (auto simp: HasPrefix_def fence_def hd)
  have "\<not> suffix fence (butlast out @ [last out])"
    using lc by (auto simp: fence_def suffix_to_prefix)
  then have ns: "\<not> HasSuffix out fence"
    using sn by (simp add: HasSuffix_def)
  show "stripCodeFences out = out"
    using t np ns by (rule stripCodeFences_fixed)
  have st: "(if IndexByte out (CHR ''{'') < 0 then IndexByte out (CHR ''['')
             else IndexByte out (CHR ''{'')) = 0"
  proof (cases "b = CHR ''{''")
    case True
    then show ?thesis by (simp add: hd)
  next
    case False
    then have "CHR ''{'' \<notin> set post" by (rule nb)
    then have "CHR ''{'' \<notin> set (take k post)"
      by (meson in_set_takeD)
    then have "CHR ''{'' \<notin> set out"
      using False by (simp add: hd)
    then have "IndexByte out (CHR ''{'') = - 1"
      by (rule IndexByte_neg)
    moreover have "IndexByte out (CHR ''['') = 0"
      using b False by (simp add: hd)
    ultimately show ?thesis by simp
  qed
  have sc: "scan_brackets out 0 0 (- 1) = int k"
    by (simp add: scan_brackets_last_zero lz')
  have sl: "slice out 0 (int k + 1) = out"
    using len by (simp add: slice_def nat_add_distrib)
  show "cut_balanced out = out"
    by (simp add: cut_balanced_def Let_def st sc sl t)
qed

lemma cut_from:
  assumes s: "s = pre @ b # post"
    and b: "b = CHR ''{'' \<or> b = CHR ''[''"
    and nb: "b \<noteq> CHR ''{'' \<Longrightarrow> CHR ''{'' \<notin> set post"
  shows "(let lastp = scan_brackets s (length pre) 0 (- 1)
          in if lastp \<ge> int (length pre)
             then TrimSpace (slice s (int (length pre)) (lastp + 1)) else s) =
         (case last_zero (b # post) 0 of
            None \<Rightarrow> s
          | Some k \<Rightarrow> take (Suc k) (b # post))"
proof (cases "last_zero (b # post) 0")
  case None
  then show ?thesis
    by (simp add: scan_brackets_last_zero s)
next
  case (Some k)
  have sl: "slice s (int (length pre)) (int (length pre + k) + 1) = take (Suc k) (b # post)"
    by (simp add: slice_def s nat_add_distrib)
  have "TrimSpace (take (Suc k) (b # post)) = take (Suc k) (b # post)"
    using b Some nb by (rule cut_fixed(1))
  then show ?thesis
    using Some sl by (simp add: scan_brackets_last_zero s Let_def)
qed

lemma cut_balanced_at:
  assumes s: "s = pre @ b # post"
    and b: "b = CHR ''{'' \<or> b = CHR ''[''"
    and nb: "b \<noteq> CHR ''{'' \<Longrightarrow> CHR ''{'' \<notin> set post"
    and st: "(if IndexByte s (CHR ''{'') < 0 then IndexByte s (CHR ''['')
              else IndexByte s (CHR ''{'')) = int (length pre)"
  shows "cut_balanced s = s \<or>
   (\<exists>k. last_zero (b # post) 0 = Some k \<and> cut_balanced s = take (Suc k) (b # post))"
proof -
  have "cut_balanced s =
      (let lastp = scan_brackets s (length pre) 0 (- 1)
       in if lastp \<ge> int (length pre)
          then TrimSpace (slice s (int (length pre)) (lastp + 1)) else s)"
    unfolding cut_balanced_def Let_def st by simp
  also have "\<dots> = (case last_zero (b # post) 0 of None \<Rightarrow> s
                     | Some k \<Rightarrow> take (Suc k) (b # post))"
    using s b nb by (rule cut_from)
  finally show ?thesis
    by (cases "last_zero (b # post) 0") simp_all
qed

lemma cut_balanced_cases:
  "cut_balanced s = s \<or>
   (\<exists>b post k. (b = CHR ''{'' \<or> b = CHR ''['') \<and> last_zero (b # post) 0 = Some k \<and>
      (b \<noteq> CHR ''{'' \<longrightarrow> CHR ''{'' \<notin> set post) \<and>
      cut_balanced s = take (Suc k) (b # post))"
proof (cases "CHR ''{'' \<in> set s")
  case True
  then obtain pre post where
    p: "s = pre @ CHR ''{'' # post" "IndexByte s (CHR ''{'') = int (length pre)"
    using IndexByte_found by blast
  have "cut_balanced s = s \<or>
     (\<exists>k. last_zero (CHR ''{'' # post) 0 = Some k \<and>
          cut_balanced s = take (Suc k) (CHR ''{'' # post))"
    using p(1) by (rule cut_balanced_at) (simp_all add: p(2))
  then show ?thesis by blast
next
  case nobrace: False
  then have i0: "IndexByte s (CHR ''{'') = - 1"
    by (rule IndexByte_neg)
  show ?thesis
  proof (cases "CHR ''['' \<in> set s")
    case False
    then have "IndexByte s (CHR ''['') = - 1"
      by (rule IndexByte_neg)
    then show ?thesis
      by (simp add: cut_balanced_def i0)
  next
    case True
    then obtain pre post where
      p: "s = pre @ CHR ''['' # post" "IndexByte s (CHR ''['') = int (length pre)"
      using IndexByte_found by blast
    have np: "CHR ''{'' \<notin> set post"
      using nobrace p(1) by simp
    have "cut_balanced s = s \<or>
       (\<exists>k. last_zero (CHR ''['' # post) 0 = Some k \<and>
            cut_balanced s = take (Suc k) (CHR ''['' # post))"
      using p(1) by (rule cut_balanced_at) (simp_all add: p(2) i0 np)
    then show ?thesis using np by blast
  qed
qed

text \<open>
  Claim C7, amended.  Whenever the output of the extractor neither starts nor ends with
  a fence marker, applying the extractor to its own output returns that output
  unchanged.  This covers every output that was cut out by the bracket scan, since
  such an output starts with an opening and ends with a closing bracket.
\<close>

theorem extractJSONFromText_idempotent_unfenced:
  assumes "\<not> HasPrefix (extractJSONFromText x) fence"
    and "\<not> HasSuffix (extractJSONFromText x) fence"
  shows "extractJSONFromText (extractJSONFromText x) = extractJSONFromText x"
proof -
  let ?s = "stripCodeFences x"
  have e: "extractJSONFromText x = cut_balanced ?s"
    by (rule extractJSONFromText_split)
  consider (same) "cut_balanced ?s = ?s"
    | (cut) b post k where "b = CHR ''{'' \<or> b = CHR ''[''" "last_zero (b # post) 0 = Some k"
        "b \<noteq> CHR ''{'' \<longrightarrow> CHR ''{'' \<notin> set post" "cut_balanced ?s = take (Suc k) (b # post)"
    using cut_balanced_cases [of ?s] by blast
  then show ?thesis
  proof cases
    case same
    have "stripCodeFences ?s = ?s"
      using assms by (intro stripCodeFences_fixed TrimSpace_stripCodeFences) (simp_all add: e same)
    then show ?thesis
      by (simp add: extractJSONFromText_split same)
  next
    case cut
    have "stripCodeFences (take (Suc k) (b # post)) = take (Suc k) (b # post)"
      and "cut_balanced (take (Suc k) (b # post)) = take (Suc k) (b # post)"
      using cut(1,2,3) by (blast intro: cut_fixed(2) cut_fixed(3))+
    then show ?thesis
      by (simp add: extractJSONFromText_split cut(4))
  qed
qed

section \<open>The JSON extractor on concrete texts\<close>

text \<open>
  Claim C2.  The extractor is specified to scan forward and to return the substring that
  ends where the nesting depth returns to zero.  On the text
  \<^verbatim>\<open>{"a":1} (use {} for none)\<close> the depth returns to zero at the end of \<^verbatim>\<open>{"a":1}\<close>, but
  the loop does not stop there: the result runs on to the closing brace of the second
  pair, and is not a JSON value.
\<close>

theorem extractJSONFromText_runs_past_first_close:
  "extractJSONFromText ''{\"a\":1} (use {} for none)'' = ''{\"a\":1} (use {}''"
proof -
  let ?s = "''{\"a\":1} (use {} for none)''"
  have l: "leading_space ?s = None"
    by (simp add: leading_space_def space_encodings_def)
  have r: "trailing_space ?s = None"
    by (simp add: trailing_space_def space_encodings_def suffix_to_prefix)
  have t: "TrimSpace ?s = ?s"
    using l r by (rule TrimSpace_None)
  have sc: "scan_brackets ?s 0 0 (- 1) = 14"
    by (simp add: scan_brackets.simps)
  let ?o = "''{\"a\":1} (use {}''"
  have l': "leading_space ?o = None"
    by (simp add: leading_space_def space_encodings_def)
  have r': "trailing_space ?o = None"
    by (simp add: trailing_space_def space_encodings_def suffix_to_prefix)
  have t': "TrimSpace ?o = ?o"
    using l' r' by (rule TrimSpace_None)
  show ?thesis
    by (simp add: extractJSONFromText_def t HasPrefix_def HasSuffix_def fence_def sc
        slice_def suffix_to_prefix t')
qed

section \<open>Idempotence of the extractor on concrete texts\<close>

lemmas space_eval = leading_space_def trailing_space_def space_encodings_def suffix_to_prefix

lemma extract_fence_remnant:
  "extractJSONFromText ''```\<newline>```x'' = ''```x''"
proof -
  have t1: "TrimSpace ''```\<newline>```x'' = ''```\<newline>```x''"
    by (rule TrimSpace_None) (simp_all add: space_eval)
  have t2: "TrimSpace ''```x'' = ''```x''"
    by (rule TrimSpace_None) (simp_all add: space_eval)
  show ?thesis
    unfolding extractJSONFromText_def Let_def t1
    by (simp add: HasPrefix_def HasSuffix_def fence_def suffix_to_prefix t2)
qed

lemma extract_fence_only: "extractJSONFromText ''```x'' = []"
proof -
  have t2: "TrimSpace ''```x'' = ''```x''"
    by (rule TrimSpace_None) (simp_all add: space_eval)
  have t0: "TrimSpace [] = []"
    by (rule TrimSpace_None) (simp_all add: space_eval)
  show ?thesis
    unfolding extractJSONFromText_def Let_def t2
    by (simp add: HasPrefix_def HasSuffix_def fence_def t0)
qed

text \<open>
  Claim C7, as stated, fails.  A text that starts with a fence line and still starts with a
  fence after that line is removed comes out with a fence in front, and the second
  application removes it together with what is left of the line.
\<close>

theorem extractJSONFromText_not_idempotent:
  "extractJSONFromText (extractJSONFromText ''```\<newline>```x'')
     \<noteq> extractJSONFromText ''```\<newline>```x''"
  by (simp add: extract_fence_remnant extract_fence_only)

lemma extract_fenced_object:
  "extractJSONFromText ''```json\<newline>{\"a\":1}\<newline>```'' = ''{\"a\":1}''"
proof -
  let ?x = "''```json\<newline>{\"a\":1}\<newline>```''"
  have t1: "TrimSpace ?x = ?x"
    by (rule TrimSpace_None) (simp_all add: space_eval)
  have tr1: "TrimRight ''{\"a\":1}\<newline>'' = TrimRight ''{\"a\":1}''"
    by (subst TrimRight.simps) (simp add: space_eval)
  have tr2: "TrimRight ''{\"a\":1}'' = ''{\"a\":1}''"
    by (rule TrimRight_None) (simp add: space_eval)
  have tl: "TrimLeft ''{\"a\":1}\<newline>'' = ''{\"a\":1}\<newline>''"
    by (rule TrimLeft_None) (simp add: space_eval)
  have t2: "TrimSpace ''{\"a\":1}\<newline>'' = ''{\"a\":1}''"
    by (simp add: TrimSpace_def tl tr1 tr2)
  have t3: "TrimSpace ''{\"a\":1}'' = ''{\"a\":1}''"
    by (rule TrimSpace_None) (simp_all add: space_eval)
  have sc: "scan_brackets ''{\"a\":1}'' 0 0 (- 1) = 6"
    by (simp add: scan_brackets.simps)
  show ?thesis
    unfolding extractJSONFromText_def Let_def t1
    by (simp add: HasPrefix_def HasSuffix_def TrimSuffix_def fence_def suffix_to_prefix
        t2 sc slice_def t3)
qed

theorem extractJSONFromText_idempotent_unfenced_witness:
  "\<not> HasPrefix (extractJSONFromText ''```json\<newline>{\"a\":1}\<newline>```'') fence \<and>
   \<not> HasSuffix (extractJSONFromText ''```json\<newline>{\"a\":1}\<newline>```'') fence \<and>
   extractJSONFromText (extractJSONFromText ''```json\<newline>{\"a\":1}\<newline>```'')
     = ''{\"a\":1}''"
proof -
  let ?x = "''```json\<newline>{\"a\":1}\<newline>```''"
  have p: "\<not> HasPrefix (extractJSONFromText ?x) fence"
    by (simp add: extract_fenced_object HasPrefix_def fence_def)
  have s: "\<not> HasSuffix (extractJSONFromText ?x) fence"
    by (simp add: extract_fenced_object HasSuffix_def fence_def suffix_to_prefix)
  from extractJSONFromText_idempotent_unfenced [OF p s] p s show ?thesis
    by (simp add: extract_fenced_object)
qed

end
